theory Spec2Isabelle
  imports Complex_Main "HOL-Library.Sublist"
begin

section \<open>Numbers, clock readings and errors\<close>

text \<open>
  A JavaScript number is modelled as an exact rational: the delays of the rate limiter
  are multiplied by \<open>1.5\<close>, so integers do not suffice, and the rounding of IEEE doubles
  (and the values NaN and Infinity) is left out.  A reading of \<^verbatim>\<open>Date.now()\<close> is a
  natural number of milliseconds since the epoch; it enters the arithmetic of the
  limiter through \<open>of_nat\<close>.  A thrown \<^verbatim>\<open>TypeError\<close> is a value of type \<open>js_error\<close>.
\<close>

type_synonym number = rat

datatype js_error = TypeError

text \<open>\<^verbatim>\<open>x || d\<close> on an optional number: \<^verbatim>\<open>undefined\<close> and \<open>0\<close> are falsy.\<close>

definition or_default :: "number option \<Rightarrow> number \<Rightarrow> number" where
  "or_default x d = (case x of None \<Rightarrow> d | Some v \<Rightarrow> if v = 0 then d else v)"

section \<open>AdaptiveRateLimiter (lib/api.js)\<close>

record limiter_options =
  opt_baseDelayMs :: "number option"
  opt_minDelayMs :: "number option"
  opt_maxDelayMs :: "number option"
  opt_maxRequestsPerMinute :: "number option"

record AdaptiveRateLimiter =
  baseDelayMs :: number
  minDelayMs :: number
  maxDelayMs :: number
  maxRequestsPerMinute :: number
  dynamicDelayMs :: number
  emptyStreak :: nat
  cooldownUntil :: number
  backoffMs :: number
  requestTimestamps :: "nat list"
  lastRequestTime :: nat

definition AdaptiveRateLimiter_constructor :: "limiter_options \<Rightarrow> AdaptiveRateLimiter" where
  "AdaptiveRateLimiter_constructor options =
     \<lparr> baseDelayMs = or_default (opt_baseDelayMs options) 1500,
       minDelayMs = or_default (opt_minDelayMs options) 800,
       maxDelayMs = or_default (opt_maxDelayMs options) 8000,
       maxRequestsPerMinute = or_default (opt_maxRequestsPerMinute options) 90,
       dynamicDelayMs = or_default (opt_baseDelayMs options) 1500,
       emptyStreak = 0,
       cooldownUntil = 0,
       backoffMs = 60000,
       requestTimestamps = [],
       lastRequestTime = 0 \<rparr>"

text \<open>
  The limiter that \<^verbatim>\<open>InstagramAPI\<close> builds: \<^verbatim>\<open>betweenRequests * 1000\<close> with
  \<^verbatim>\<open>betweenRequests: 1.5\<close> from the configuration, and the literals 800, 8000 and 90.
\<close>

definition api_limiter_options :: limiter_options where
  "api_limiter_options =
     \<lparr> opt_baseDelayMs = Some ((3 / 2) * 1000), opt_minDelayMs = Some 800,
       opt_maxDelayMs = Some 8000, opt_maxRequestsPerMinute = Some 90 \<rparr>"

text \<open>The priority label is the string the caller passes in \<^verbatim>\<open>meta.priority\<close>.\<close>

definition baseForPriority :: "AdaptiveRateLimiter \<Rightarrow> string \<Rightarrow> number" where
  "baseForPriority s priority =
     (if priority = ''high'' then max (baseDelayMs s - 300) (minDelayMs s)
      else if priority = ''low'' then baseDelayMs s + 300
      else baseDelayMs s)"

text \<open>
  \<open>beforeRequest s now priority wake\<close>: \<open>now\<close> is the clock reading at entry and \<open>wake\<close>
  the reading stored in \<open>lastRequestTime\<close> at the end.  The result lists the durations
  handed to \<^verbatim>\<open>sleep\<close>, in order, beside the new state.
\<close>

definition beforeRequest ::
  "AdaptiveRateLimiter \<Rightarrow> nat \<Rightarrow> string \<Rightarrow> nat \<Rightarrow> number list \<times> AdaptiveRateLimiter" where
  "beforeRequest s now priority wake =
     (let cooldownSleep =
            (if cooldownUntil s \<noteq> 0 \<and> of_nat now < cooldownUntil s
             then [cooldownUntil s - of_nat now] else []);
          spacingTarget = max (dynamicDelayMs s) (baseForPriority s priority);
          sinceLast = of_nat now - of_nat (lastRequestTime s);
          waitMs = max (spacingTarget - sinceLast) 0;
          spacingSleep = (if waitMs > 0 then [waitMs] else [])
      in (cooldownSleep @ spacingSleep, s\<lparr>lastRequestTime := wake\<rparr>))"

record response =
  status :: number
  resultsCount :: number
  responseTimeMs :: number

definition afterResponse :: "AdaptiveRateLimiter \<Rightarrow> nat \<Rightarrow> response \<Rightarrow> AdaptiveRateLimiter" where
  "afterResponse s0 now r =
     (let s = s0\<lparr>requestTimestamps :=
                   filter (\<lambda>ts. int now - int ts < 60000) (requestTimestamps s0 @ [now])\<rparr>
      in if status r = 429 then
           s\<lparr>cooldownUntil := of_nat now + backoffMs s,
             dynamicDelayMs := min (dynamicDelayMs s * (3 / 2) + 200) (maxDelayMs s),
             backoffMs := min (backoffMs s * (3 / 2)) (maxDelayMs s * 4)\<rparr>
         else
           let density = length (requestTimestamps s);
               s1 = (if of_nat density > maxRequestsPerMinute s
                     then s\<lparr>dynamicDelayMs := min (dynamicDelayMs s + 400) (maxDelayMs s)\<rparr>
                     else s);
               s2 = (if responseTimeMs r > 2000
                     then s1\<lparr>dynamicDelayMs := min (dynamicDelayMs s1 + 200) (maxDelayMs s1)\<rparr>
                     else if responseTimeMs r < 800
                     then s1\<lparr>dynamicDelayMs := max (dynamicDelayMs s1 - 100) (minDelayMs s1)\<rparr>
                     else s1)
           in if resultsCount r = 0 then
                let s3 = s2\<lparr>emptyStreak := emptyStreak s2 + 1\<rparr>
                in if emptyStreak s3 \<ge> 3
                   then s3\<lparr>dynamicDelayMs := max (dynamicDelayMs s3 - 150) (minDelayMs s3)\<rparr>
                   else s3
              else
                s2\<lparr>emptyStreak := 0,
                   dynamicDelayMs := max (dynamicDelayMs s2 - 50) (minDelayMs s2)\<rparr>)"

text \<open>A run of \<^verbatim>\<open>afterResponse\<close> calls, each with its clock reading.\<close>

fun afterResponses :: "AdaptiveRateLimiter \<Rightarrow> (nat \<times> response) list \<Rightarrow> AdaptiveRateLimiter" where
  "afterResponses s [] = s"
| "afterResponses s ((now, r) # calls) = afterResponses (afterResponse s now r) calls"

definition delay_in_bounds :: "AdaptiveRateLimiter \<Rightarrow> bool" where
  "delay_in_bounds s \<longleftrightarrow> minDelayMs s \<le> dynamicDelayMs s \<and> dynamicDelayMs s \<le> maxDelayMs s"

section \<open>Strings\<close>

text \<open>
  A string is a list of bytes, the UTF-8 encoding of the JavaScript string.
  \<^verbatim>\<open>toLowerCase\<close> maps the ASCII capital letters and leaves every other byte alone.
  \<^verbatim>\<open>toUpperCase\<close> maps the ASCII small letters, the sharp s (bytes \<open>C3 9F\<close>), which
  JavaScript upper-cases to the two letters \<open>SS\<close>, and the dotless i (bytes \<open>C4 B1\<close>), which
  it upper-cases to \<open>I\<close>, and leaves every other byte alone.  On ASCII text both are
  JavaScript's mappings exactly (\<open>is_ascii\<close>); the case mappings of the remaining Unicode
  letters are left out.  \<^verbatim>\<open>trim\<close> strips the ASCII white space
  characters.
\<close>

definition toLowerCase_char :: "char \<Rightarrow> char" where
  "toLowerCase_char c =
     (let n = (of_char c :: nat) in if 65 \<le> n \<and> n \<le> 90 then char_of (n + 32) else c)"


definition toLowerCase :: "string \<Rightarrow> string" where
  "toLowerCase s = map toLowerCase_char s"





text \<open>\<open>str_includes s k\<close> is \<^verbatim>\<open>s.includes(k)\<close>: \<open>k\<close> occurs in \<open>s\<close> as a contiguous run.\<close>

fun str_includes :: "string \<Rightarrow> string \<Rightarrow> bool" where
  "str_includes [] k = (k = [])"
| "str_includes (c # cs) k = (prefix k (c # cs) \<or> str_includes cs k)"

section \<open>Configuration (config.js)\<close>

definition FILTER_mustBePublic :: bool where
  "FILTER_mustBePublic = True"

definition FILTER_minFollowers :: number where
  "FILTER_minFollowers = 100"

section \<open>Profile filter and records (lib/utils.js)\<close>

text \<open>
  A profile as \<^verbatim>\<open>getProfile\<close> returns it; a field that may be \<^verbatim>\<open>undefined\<close> is an
  option.  \<open>edge_followed_by_count\<close> is \<^verbatim>\<open>edge_followed_by?.count\<close>, and \<open>is_private\<close>
  is the truthiness of the flag.
\<close>

record profile =
  username :: "string option"
  full_name :: "string option"
  biography :: "string option"
  is_private :: bool
  edge_followed_by_count :: "number option"

text \<open>\<^verbatim>\<open>x || ''\<close> on an optional string.\<close>

definition or_empty :: "string option \<Rightarrow> string" where
  "or_empty x = (case x of None \<Rightarrow> [] | Some s \<Rightarrow> s)"

text \<open>
  A keyword configuration is an object with one list per language; a language that the
  object does not carry reads as \<^verbatim>\<open>undefined\<close>, here \<open>None\<close>.  The filter reads the two
  languages \<open>english\<close> and \<open>arabic\<close>.
\<close>

record keyword_sets =
  english :: "string list option"
  arabic :: "string list option"

datatype filter_reason =
    Account_is_private
  | No_trainer_keyword_in_bio
  | Has_exclude_keyword
  | All_checks_passed
  | Filter_error

record verdict =
  pass :: bool
  reason :: filter_reason

text \<open>
  \<^verbatim>\<open>ks.english.concat(ks.arabic)\<close>: calling \<^verbatim>\<open>concat\<close> on \<^verbatim>\<open>undefined\<close> throws, and
  \<^verbatim>\<open>concat(undefined)\<close> appends \<^verbatim>\<open>undefined\<close> as one more element.
\<close>

definition concat_languages :: "keyword_sets \<Rightarrow> js_error + string option list" where
  "concat_languages ks =
     (case english ks of
        None \<Rightarrow> Inl TypeError
      | Some e \<Rightarrow> Inr (map Some e @ (case arabic ks of None \<Rightarrow> [None] | Some a \<Rightarrow> map Some a)))"

text \<open>
  \<^verbatim>\<open>.some(keyword => bio.includes(keyword.toLowerCase()))\<close>: stops at the first match, and
  throws when it reaches an element that is \<^verbatim>\<open>undefined\<close>.
\<close>

fun some_includes :: "string \<Rightarrow> string option list \<Rightarrow> js_error + bool" where
  "some_includes bio [] = Inr False"
| "some_includes bio (None # ks) = Inl TypeError"
| "some_includes bio (Some keyword # ks) =
     (if str_includes bio (toLowerCase keyword) then Inr True else some_includes bio ks)"

definition has_keyword :: "string \<Rightarrow> keyword_sets \<Rightarrow> js_error + bool" where
  "has_keyword bio ks =
     (case concat_languages ks of Inl e \<Rightarrow> Inl e | Inr l \<Rightarrow> some_includes bio l)"

text \<open>The \<^verbatim>\<open>catch\<close> of \<^verbatim>\<open>filterProfile\<close> turns every error into a failing verdict.\<close>

definition filterProfile :: "profile \<Rightarrow> keyword_sets \<Rightarrow> keyword_sets \<Rightarrow> verdict" where
  "filterProfile p bioKeywords excludeKeywords =
     (let followers = or_default (edge_followed_by_count p) 0 in
      if is_private p then \<lparr>pass = False, reason = Account_is_private\<rparr>
      else
        let bio = toLowerCase (or_empty (biography p)) in
        case has_keyword bio bioKeywords of
          Inl e \<Rightarrow> \<lparr>pass = False, reason = Filter_error\<rparr>
        | Inr hasBioKeyword \<Rightarrow>
            if \<not> hasBioKeyword then \<lparr>pass = False, reason = No_trainer_keyword_in_bio\<rparr>
            else
              (case has_keyword bio excludeKeywords of
                 Inl e \<Rightarrow> \<lparr>pass = False, reason = Filter_error\<rparr>
               | Inr hasExcludeKeyword \<Rightarrow>
                   if hasExcludeKeyword then \<lparr>pass = False, reason = Has_exclude_keyword\<rparr>
                   else \<lparr>pass = True, reason = All_checks_passed\<rparr>))"

text \<open>
  The record \<^verbatim>\<open>extractTrainerInfo\<close> builds.  Its other fields (user id, counts, flags,
  image URL, timestamp) are copied from the profile or the clock and read by nothing
  modelled here.  For a profile object the body cannot throw, so the result is never
  \<^verbatim>\<open>null\<close>; the option keeps the caller's test of it.
\<close>

record trainer =
  trainer_username :: string
  fullName :: string
  followers :: number
  bio :: string
  searchKeyword :: string

definition extractTrainerInfo :: "profile \<Rightarrow> string \<Rightarrow> trainer option" where
  "extractTrainerInfo p keyword =
     Some \<lparr> trainer_username = or_empty (username p),
            fullName = or_empty (full_name p),
            followers = or_default (edge_followed_by_count p) 0,
            bio = or_empty (biography p),
            searchKeyword = keyword \<rparr>"

fun deduplicate_loop :: "string set \<Rightarrow> trainer list \<Rightarrow> trainer list \<Rightarrow> trainer list" where
  "deduplicate_loop seen unique [] = unique"
| "deduplicate_loop seen unique (t # ts) =
     (if toLowerCase (trainer_username t) \<notin> seen
      then deduplicate_loop (insert (toLowerCase (trainer_username t)) seen) (unique @ [t]) ts
      else deduplicate_loop seen unique ts)"

definition deduplicateTrainers :: "trainer list \<Rightarrow> trainer list" where
  "deduplicateTrainers trainers = deduplicate_loop {} [] trainers"


section \<open>Search requests (lib/api.js)\<close>




text \<open>A hit of the search; the orchestrator reads its \<^verbatim>\<open>username\<close> only.\<close>

record search_hit =
  hit_username :: "string option"

section \<open>PTFinder, three-phase sweep (lib/searcher.js)\<close>


text \<open>
  The body of the loop over the hits of one search in \<^verbatim>\<open>phase1SearchNameLocations\<close>
  (the other two phases have the same body), and the loop.  The profile collaborator is
  the function \<open>getProfile\<close>; a hit without a username asks for the profile of
  \<^verbatim>\<open>"undefined"\<close>.  Every \<^verbatim>\<open>continue\<close> returns the list of trainers as it is.
\<close>

definition phase_user ::
  "(string \<Rightarrow> profile option) \<Rightarrow> keyword_sets \<Rightarrow> keyword_sets \<Rightarrow> string \<Rightarrow>
     trainer list \<Rightarrow> search_hit \<Rightarrow> trainer list" where
  "phase_user getProfile bioKw exclKw label trainers user =
     (case getProfile (case hit_username user of None \<Rightarrow> ''undefined'' | Some u \<Rightarrow> u) of
        None \<Rightarrow> trainers
      | Some p \<Rightarrow>
          if \<not> pass (filterProfile p bioKw exclKw) then trainers
          else
            (case extractTrainerInfo p label of
               None \<Rightarrow> trainers
             | Some t \<Rightarrow> trainers @ [t]))"

fun phase_users ::
  "(string \<Rightarrow> profile option) \<Rightarrow> keyword_sets \<Rightarrow> keyword_sets \<Rightarrow> string \<Rightarrow>
     trainer list \<Rightarrow> search_hit list \<Rightarrow> trainer list" where
  "phase_users getProfile bioKw exclKw label trainers [] = trainers"
| "phase_users getProfile bioKw exclKw label trainers (user # users) =
     phase_users getProfile bioKw exclKw label
       (phase_user getProfile bioKw exclKw label trainers user) users"

section \<open>PTFinder, priority strategy (smart searcher)\<close>

record PTFinder =
  names :: "string list"
  bioFilterKeywords :: keyword_sets
  excludeKeywords :: keyword_sets
  allTrainers :: "trainer list"
  priorityNames :: "string list"
  remainingNames :: "string list"
  priorityKeywords :: "string list"
  reducedKeywords :: "string list"
  broadKeywords :: "string list"
  seenUsernames :: "string set"

definition PTFinder_constructor :: "keyword_sets \<Rightarrow> keyword_sets \<Rightarrow> PTFinder" where
  "PTFinder_constructor bioKw exclKw =
     \<lparr> names = [], bioFilterKeywords = bioKw, excludeKeywords = exclKw, allTrainers = [],
       priorityNames = [], remainingNames = [], priorityKeywords = [], reducedKeywords = [],
       broadKeywords = [], seenUsernames = {} \<rparr>"

definition prioritySeed :: "string list" where
  "prioritySeed =
     [''ahmed'', ''mohamed'', ''mohammed'', ''omar'', ''ali'',
      ''sara'', ''fatma'', ''mona'', ''nour'', ''mariam'']"

text \<open>The Arabic keywords are written as their UTF-8 bytes.\<close>

definition configureKeywordSets :: "PTFinder \<Rightarrow> PTFinder" where
  "configureKeywordSets s =
     (let available = set (names s);
          pn = filter (\<lambda>n. n \<in> available) prioritySeed
      in s\<lparr> priorityNames := pn,
            remainingNames := filter (\<lambda>n. n \<notin> set pn) (names s),
            priorityKeywords :=
              [''trainer'', ''coach'', ''personal trainer'',
               [CHR 0xD9, CHR 0x85, CHR 0xD8, CHR 0xAF, CHR 0xD8, CHR 0xB1, CHR 0xD8, CHR 0xA8],
               [CHR 0xD9, CHR 0x83, CHR 0xD9, CHR 0x88, CHR 0xD8, CHR 0xAA, CHR 0xD8, CHR 0xB4]],
            reducedKeywords :=
              [''trainer'', ''coach'',
               [CHR 0xD9, CHR 0x85, CHR 0xD8, CHR 0xAF, CHR 0xD8, CHR 0xB1, CHR 0xD8, CHR 0xA8]],
            broadKeywords :=
              [''personal trainer'', ''fitness coach'', ''gym trainer'',
               [CHR 0xD9, CHR 0x85, CHR 0xD8, CHR 0xAF, CHR 0xD8, CHR 0xB1, CHR 0xD8, CHR 0xA8,
                CHR 0x20, CHR 0xD8, CHR 0xB4, CHR 0xD8, CHR 0xAE, CHR 0xD8, CHR 0xB5, CHR 0xD9,
                CHR 0x8A],
               [CHR 0xD9, CHR 0x85, CHR 0xD8, CHR 0xAF, CHR 0xD8, CHR 0xB1, CHR 0xD8, CHR 0xA8,
                CHR 0x20, CHR 0xD9, CHR 0x84, CHR 0xD9, CHR 0x8A, CHR 0xD8, CHR 0xA7, CHR 0xD9,
                CHR 0x82, CHR 0xD8, CHR 0xA9],
               [CHR 0xD9, CHR 0x83, CHR 0xD9, CHR 0x88, CHR 0xD8, CHR 0xAA, CHR 0xD8, CHR 0xB4,
                CHR 0x20, CHR 0xD9, CHR 0x81, CHR 0xD8, CHR 0xAA, CHR 0xD9, CHR 0x86, CHR 0xD8,
                CHR 0xB3]] \<rparr>)"

text \<open>
  The body of the loop of \<^verbatim>\<open>searchAndProcess\<close> over the hits, and the loop.
  \<^verbatim>\<open>user.username.toLowerCase()\<close> throws on a hit without a username, and the function
  has no \<^verbatim>\<open>catch\<close>: the error leaves the loop, with the state as it is at that moment.
  Every \<^verbatim>\<open>continue\<close> returns the state as it is.
\<close>

definition process_user ::
  "(string \<Rightarrow> profile option) \<Rightarrow> string \<Rightarrow> PTFinder \<Rightarrow> search_hit \<Rightarrow>
     js_error \<times> PTFinder + PTFinder" where
  "process_user getProfile contextLabel s user =
     (case hit_username user of
        None \<Rightarrow> Inl (TypeError, s)
      | Some u \<Rightarrow>
          if toLowerCase u \<in> seenUsernames s then Inr s
          else
            (case getProfile u of
               None \<Rightarrow> Inr s
             | Some p \<Rightarrow>
                 if \<not> pass (filterProfile p (bioFilterKeywords s) (excludeKeywords s))
                 then Inr s
                 else
                   (case extractTrainerInfo p contextLabel of
                      None \<Rightarrow> Inr s
                    | Some t \<Rightarrow>
                        Inr (s\<lparr> seenUsernames :=
                                   insert (toLowerCase (trainer_username t)) (seenUsernames s),
                                 allTrainers := allTrainers s @ [t] \<rparr>))))"

fun process_users ::
  "(string \<Rightarrow> profile option) \<Rightarrow> string \<Rightarrow> PTFinder \<Rightarrow> search_hit list \<Rightarrow>
     js_error \<times> PTFinder + PTFinder" where
  "process_users getProfile contextLabel s [] = Inr s"
| "process_users getProfile contextLabel s (user # users) =
     (case process_user getProfile contextLabel s user of
        Inl e \<Rightarrow> Inl e
      | Inr s' \<Rightarrow> process_users getProfile contextLabel s' users)"


text \<open>\<^verbatim>\<open>getResults\<close>: the final pass over the collected trainers.\<close>

definition getResults :: "PTFinder \<Rightarrow> trainer list" where
  "getResults s = deduplicateTrainers (allTrainers s)"

section \<open>Identity keys\<close>

text \<open>The key of an accepted record: its username, case-folded.\<close>

definition dedupKey :: "trainer \<Rightarrow> string" where
  "dedupKey t = toLowerCase (trainer_username t)"

text \<open>
  The set of seen usernames holds exactly the keys of the accepted records, and no key
  occurs twice among them.
\<close>

definition dedup_inv :: "PTFinder \<Rightarrow> bool" where
  "dedup_inv s \<longleftrightarrow>
     seenUsernames s = set (map dedupKey (allTrainers s)) \<and> distinct (map dedupKey (allTrainers s))"

text \<open>
  The contract of the profile collaborator: the profile it returns for a username carries
  that username, up to letter case.
\<close>

definition returns_requested_profile :: "(string \<Rightarrow> profile option) \<Rightarrow> bool" where
  "returns_requested_profile getProfile \<longleftrightarrow>
     (\<forall>u p. getProfile u = Some p \<longrightarrow> toLowerCase (or_empty (username p)) = toLowerCase u)"

text \<open>
  A hit that the loop of \<^verbatim>\<open>searchAndProcess\<close> passes over in state \<open>s\<close>: its identity
  is already seen, or its profile cannot be fetched, or the profile fails the filter.
\<close>

definition skips :: "(string \<Rightarrow> profile option) \<Rightarrow> PTFinder \<Rightarrow> search_hit \<Rightarrow> bool" where
  "skips getProfile s user =
     (case hit_username user of
        None \<Rightarrow> False
      | Some u \<Rightarrow>
          toLowerCase u \<in> seenUsernames s
          \<or> (case getProfile u of
                None \<Rightarrow> True
              | Some p \<Rightarrow> \<not> pass (filterProfile p (bioFilterKeywords s) (excludeKeywords s))))"

text \<open>
  A hit that a pass of the loop has dealt with by state \<open>s\<close>: it is skipped there, or the
  key of its profile is among the accepted records.
\<close>

definition recorded :: "(string \<Rightarrow> profile option) \<Rightarrow> PTFinder \<Rightarrow> search_hit \<Rightarrow> bool" where
  "recorded getProfile s user =
     (case hit_username user of
        None \<Rightarrow> False
      | Some u \<Rightarrow>
          toLowerCase u \<in> seenUsernames s
          \<or> (case getProfile u of
                None \<Rightarrow> True
              | Some p \<Rightarrow>
                  toLowerCase (or_empty (username p)) \<in> set (map dedupKey (allTrainers s))
                  \<or> \<not> pass (filterProfile p (bioFilterKeywords s) (excludeKeywords s))))"

section \<open>The filter as the specification words it\<close>

text \<open>
  The biography contains a keyword case-insensitively, as a substring; \<open>sublist\<close> is the
  contiguous-sublist relation of the library.
\<close>

definition bio_contains :: "profile \<Rightarrow> string \<Rightarrow> bool" where
  "bio_contains p k \<longleftrightarrow> sublist (toLowerCase k) (toLowerCase (or_empty (biography p)))"

text \<open>The union of the language lists of a keyword configuration; a missing list adds nothing.\<close>

definition language_union :: "keyword_sets \<Rightarrow> string list" where
  "language_union ks =
     (case english ks of None \<Rightarrow> [] | Some e \<Rightarrow> e) @ (case arabic ks of None \<Rightarrow> [] | Some a \<Rightarrow> a)"

text \<open>
  The verdict the specification describes: not private, some include keyword in the
  biography, no exclude keyword in it.
\<close>

definition spec_filter_pass :: "profile \<Rightarrow> keyword_sets \<Rightarrow> keyword_sets \<Rightarrow> bool" where
  "spec_filter_pass p includeKw excludeKw \<longleftrightarrow>
     \<not> is_private p
     \<and> (\<exists>k \<in> set (language_union includeKw). bio_contains p k)
     \<and> \<not> (\<exists>k \<in> set (language_union excludeKw). bio_contains p k)"

section \<open>Concrete inputs\<close>

text \<open>Configurations and calls at which the properties below are evaluated.\<close>

definition floor_above_base_options :: limiter_options where
  "floor_above_base_options =
     \<lparr> opt_baseDelayMs = Some 1500, opt_minDelayMs = Some 2000,
       opt_maxDelayMs = Some 8000, opt_maxRequestsPerMinute = None \<rparr>"

definition base_near_max_options :: limiter_options where
  "base_near_max_options =
     \<lparr> opt_baseDelayMs = Some 7900, opt_minDelayMs = Some 800,
       opt_maxDelayMs = Some 8000, opt_maxRequestsPerMinute = None \<rparr>"

definition rate_limited :: response where
  "rate_limited = \<lparr>status = 429, resultsCount = 0, responseTimeMs = 100\<rparr>"

definition slow_hit :: response where
  "slow_hit = \<lparr>status = 200, resultsCount = 3, responseTimeMs = 2500\<rparr>"

definition fast_empty :: response where
  "fast_empty = \<lparr>status = 200, resultsCount = 0, responseTimeMs = 100\<rparr>"

definition dm_for_coaching :: profile where
  "dm_for_coaching =
     \<lparr> username = Some ''fit.sam'', full_name = Some ''Sam'',
       biography = Some ''DM for coaching'', is_private = False,
       edge_followed_by_count = Some 5 \<rparr>"

definition musician_and_coach :: profile where
  "musician_and_coach =
     \<lparr> username = Some ''omar.music'', full_name = None,
       biography = Some ''musician and coach'', is_private = False,
       edge_followed_by_count = Some 2500 \<rparr>"

text \<open>\<^verbatim>\<open>{english: ["coach"]}\<close>, \<^verbatim>\<open>{english: ["musician"], arabic: []}\<close>,
  \<^verbatim>\<open>{english: [], arabic: []}\<close> and \<^verbatim>\<open>{}\<close>.\<close>

definition coach_english_only :: keyword_sets where
  "coach_english_only = \<lparr>english = Some [''coach''], arabic = None\<rparr>"

definition exclude_musician :: keyword_sets where
  "exclude_musician = \<lparr>english = Some [''musician''], arabic = Some []\<rparr>"

definition empty_lists :: keyword_sets where
  "empty_lists = \<lparr>english = Some [], arabic = Some []\<rparr>"

definition empty_object :: keyword_sets where
  "empty_object = \<lparr>english = None, arabic = None\<rparr>"

text \<open>A profile collaborator that knows two accounts, four hits, and a finder.\<close>

definition sample_getProfile :: "string \<Rightarrow> profile option" where
  "sample_getProfile u =
     (if u = ''Fit.Sam'' \<or> u = ''fit.sam'' then Some dm_for_coaching
      else if u = ''omar.music'' then Some musician_and_coach
      else None)"

definition sample_hits :: "search_hit list" where
  "sample_hits =
     [\<lparr>hit_username = Some ''Fit.Sam''\<rparr>, \<lparr>hit_username = Some ''ghost''\<rparr>,
      \<lparr>hit_username = Some ''fit.sam''\<rparr>, \<lparr>hit_username = Some ''omar.music''\<rparr>]"

definition sample_finder :: PTFinder where
  "sample_finder = PTFinder_constructor coach_english_only exclude_musician"

definition sample_trainer :: trainer where
  "sample_trainer =
     \<lparr> trainer_username = ''fit.sam'', fullName = ''Sam'', followers = 5,
       bio = ''DM for coaching'', searchKeyword = ''sam + coach'' \<rparr>"

definition sample_accepted :: PTFinder where
  "sample_accepted =
     sample_finder\<lparr>seenUsernames := {''fit.sam''}, allTrainers := [sample_trainer]\<rparr>"

definition sample_corpus :: PTFinder where
  "sample_corpus = sample_finder\<lparr>names := [''ahmed'', ''khaled'', ''sara'', ''khaled'']\<rparr>"


text \<open>
  A profile collaborator that answers a second username with the profile of \<open>fit.sam\<close>,
  and a hit under that username.
\<close>

definition alias_getProfile :: "string \<Rightarrow> profile option" where
  "alias_getProfile u =
     (if u = ''fit.sam'' \<or> u = ''sam.coach'' then Some dm_for_coaching else None)"

definition alias_hits :: "search_hit list" where
  "alias_hits = [\<lparr>hit_username = Some ''sam.coach''\<rparr>]"

definition alias_once :: PTFinder where
  "alias_once =
     sample_finder\<lparr>seenUsernames := {''fit.sam''}, allTrainers := [sample_trainer]\<rparr>"

definition alias_twice :: PTFinder where
  "alias_twice =
     sample_finder\<lparr>seenUsernames := {''fit.sam''},
                    allTrainers :=
                      [sample_trainer, sample_trainer\<lparr>searchKeyword := ''personal trainer''\<rparr>]\<rparr>"


section \<open>Properties of the rate limiter\<close>

lemma api_limiter_fields:
  "baseDelayMs (AdaptiveRateLimiter_constructor api_limiter_options) = 1500"
  "minDelayMs (AdaptiveRateLimiter_constructor api_limiter_options) = 800"
  "maxDelayMs (AdaptiveRateLimiter_constructor api_limiter_options) = 8000"
  "dynamicDelayMs (AdaptiveRateLimiter_constructor api_limiter_options) = 1500"
  "backoffMs (AdaptiveRateLimiter_constructor api_limiter_options) = 60000"
  "cooldownUntil (AdaptiveRateLimiter_constructor api_limiter_options) = 0"
  by (simp_all add: AdaptiveRateLimiter_constructor_def api_limiter_options_def or_default_def)

lemma afterResponse_config:
  "baseDelayMs (afterResponse s now r) = baseDelayMs s"
  "minDelayMs (afterResponse s now r) = minDelayMs s"
  "maxDelayMs (afterResponse s now r) = maxDelayMs s"
  by (simp_all add: afterResponse_def Let_def)

lemma afterResponse_429:
  assumes "status r = 429"
  shows "cooldownUntil (afterResponse s now r) = of_nat now + backoffMs s"
    and "dynamicDelayMs (afterResponse s now r)
           = min (dynamicDelayMs s * (3 / 2) + 200) (maxDelayMs s)"
    and "backoffMs (afterResponse s now r) = min (backoffMs s * (3 / 2)) (maxDelayMs s * 4)"
  using assms by (simp_all add: afterResponse_def Let_def)

lemma afterResponse_not_429:
  assumes "status r \<noteq> 429"
  shows "cooldownUntil (afterResponse s now r) = cooldownUntil s"
    and "backoffMs (afterResponse s now r) = backoffMs s"
  using assms by (simp_all add: afterResponse_def Let_def)

text \<open>The two clamped updates of the delay, on any state within its bounds.\<close>

lemma raise_in_bounds:
  assumes "minDelayMs s \<le> maxDelayMs s" "delay_in_bounds s" "0 \<le> k"
  shows "delay_in_bounds (s\<lparr>dynamicDelayMs := min (dynamicDelayMs s + k) (maxDelayMs s)\<rparr>)"
  using assms by (simp add: delay_in_bounds_def)

lemma lower_in_bounds:
  assumes "minDelayMs s \<le> maxDelayMs s" "delay_in_bounds s" "0 \<le> k"
  shows "delay_in_bounds (s\<lparr>dynamicDelayMs := max (dynamicDelayMs s - k) (minDelayMs s)\<rparr>)"
  using assms by (simp add: delay_in_bounds_def)

lemma afterResponse_in_bounds:
  assumes le: "minDelayMs s \<le> maxDelayMs s" and lo: "- 400 \<le> minDelayMs s"
    and inv: "delay_in_bounds s"
  shows "delay_in_bounds (afterResponse s now r)"
proof (cases "status r = 429")
  case True
  have "minDelayMs s \<le> dynamicDelayMs s * (3 / 2) + 200"
    using lo inv by (simp add: delay_in_bounds_def)
  then show ?thesis
    using le True by (simp add: delay_in_bounds_def afterResponse_429 afterResponse_config)
next
  case False
  define t where "t = s\<lparr>requestTimestamps :=
      filter (\<lambda>ts. int now - int ts < 60000) (requestTimestamps s @ [now])\<rparr>"
  define t1 where "t1 = (if of_nat (length (requestTimestamps t)) > maxRequestsPerMinute t
      then t\<lparr>dynamicDelayMs := min (dynamicDelayMs t + 400) (maxDelayMs t)\<rparr> else t)"
  define t2 where "t2 = (if responseTimeMs r > 2000
      then t1\<lparr>dynamicDelayMs := min (dynamicDelayMs t1 + 200) (maxDelayMs t1)\<rparr>
      else if responseTimeMs r < 800
      then t1\<lparr>dynamicDelayMs := max (dynamicDelayMs t1 - 100) (minDelayMs t1)\<rparr>
      else t1)"
  define t3 where "t3 = t2\<lparr>emptyStreak := emptyStreak t2 + 1\<rparr>"
  have unfolded: "afterResponse s now r =
      (if resultsCount r = 0
       then if emptyStreak t3 \<ge> 3
            then t3\<lparr>dynamicDelayMs := max (dynamicDelayMs t3 - 150) (minDelayMs t3)\<rparr> else t3
       else t2\<lparr>emptyStreak := 0,
               dynamicDelayMs := max (dynamicDelayMs t2 - 50) (minDelayMs t2)\<rparr>)"
    using False unfolding afterResponse_def Let_def t_def t1_def t2_def t3_def by simp
  have t: "minDelayMs t \<le> maxDelayMs t \<and> delay_in_bounds t"
    using le inv by (simp add: t_def delay_in_bounds_def)
  have t1: "minDelayMs t1 \<le> maxDelayMs t1 \<and> delay_in_bounds t1"
    using t raise_in_bounds [of t 400] by (simp add: t1_def)
  have t2: "minDelayMs t2 \<le> maxDelayMs t2 \<and> delay_in_bounds t2"
    using t1 raise_in_bounds [of t1 200] lower_in_bounds [of t1 100] by (simp add: t2_def)
  have t3: "minDelayMs t3 \<le> maxDelayMs t3 \<and> delay_in_bounds t3"
    using t2 by (simp add: t3_def delay_in_bounds_def)
  have e: "delay_in_bounds (t2\<lparr>emptyStreak := 0\<rparr>) \<and>
      minDelayMs (t2\<lparr>emptyStreak := 0\<rparr>) \<le> maxDelayMs (t2\<lparr>emptyStreak := 0\<rparr>)"
    using t2 by (simp add: delay_in_bounds_def)
  show ?thesis
    unfolding unfolded
    using t3 lower_in_bounds [of t3 150] lower_in_bounds [of "t2\<lparr>emptyStreak := 0\<rparr>" 50] e
    by simp
qed

lemma afterResponses_config:
  "baseDelayMs (afterResponses s calls) = baseDelayMs s"
  "minDelayMs (afterResponses s calls) = minDelayMs s"
  "maxDelayMs (afterResponses s calls) = maxDelayMs s"
  by (induction s calls rule: afterResponses.induct) (simp_all add: afterResponse_config)

lemma afterResponses_in_bounds:
  assumes "minDelayMs s \<le> maxDelayMs s" "- 400 \<le> minDelayMs s" "delay_in_bounds s"
  shows "delay_in_bounds (afterResponses s calls)"
  using assms
proof (induction s calls rule: afterResponses.induct)
  case (1 s)
  then show ?case by simp
next
  case (2 s now r calls)
  then show ?case
    by (simp add: afterResponse_config afterResponse_in_bounds)
qed

lemma constructor_in_bounds:
  assumes "minDelayMs (AdaptiveRateLimiter_constructor options)
             \<le> baseDelayMs (AdaptiveRateLimiter_constructor options)"
      and "baseDelayMs (AdaptiveRateLimiter_constructor options)
             \<le> maxDelayMs (AdaptiveRateLimiter_constructor options)"
  shows "delay_in_bounds (AdaptiveRateLimiter_constructor options)"
  using assms by (simp add: delay_in_bounds_def AdaptiveRateLimiter_constructor_def)

text \<open>
  Claim C1.  For a limiter built by the constructor whose configured values satisfy
  \<open>minDelayMs \<le> baseDelayMs \<le> maxDelayMs\<close>, \<open>dynamicDelayMs\<close> lies in
  \<open>[minDelayMs, maxDelayMs]\<close> after every prefix of every sequence of \<open>afterResponse\<close>
  calls, whatever the clock reading, status, result count and response time of each call.
  Delays are durations in milliseconds: the statement covers every configuration of
  non-negative delays (its bound on the floor, \<open>- 400\<close>, lies below all of them).
\<close>

theorem dynamicDelay_stays_in_bounds:
  assumes "minDelayMs (AdaptiveRateLimiter_constructor options)
             \<le> baseDelayMs (AdaptiveRateLimiter_constructor options)"
      and "baseDelayMs (AdaptiveRateLimiter_constructor options)
             \<le> maxDelayMs (AdaptiveRateLimiter_constructor options)"
      and "- 400 \<le> minDelayMs (AdaptiveRateLimiter_constructor options)"
  shows "delay_in_bounds (afterResponses (AdaptiveRateLimiter_constructor options) (take n calls))"
  using assms constructor_in_bounds [OF assms(1,2)]
  by (intro afterResponses_in_bounds) simp_all

text \<open>The same for non-negative delays, and at the limiter the API object builds.\<close>

lemma nonneg_configuration_in_bounds:
  assumes "0 \<le> minDelayMs (AdaptiveRateLimiter_constructor options)"
      and "minDelayMs (AdaptiveRateLimiter_constructor options)
             \<le> baseDelayMs (AdaptiveRateLimiter_constructor options)"
      and "baseDelayMs (AdaptiveRateLimiter_constructor options)
             \<le> maxDelayMs (AdaptiveRateLimiter_constructor options)"
  shows "delay_in_bounds (afterResponses (AdaptiveRateLimiter_constructor options) calls)"
  using assms constructor_in_bounds [OF assms(2,3)]
  by (intro afterResponses_in_bounds) simp_all

lemma api_limiter_stays_in_bounds:
  "delay_in_bounds (afterResponses (AdaptiveRateLimiter_constructor api_limiter_options) calls)"
  by (rule nonneg_configuration_in_bounds) (simp_all add: api_limiter_fields)

text \<open>
  At the limiter of the API object, after a 429 at clock 1000 and a slow response with
  three results at clock 70000: the delay is 2600, between 800 and 8000.
\<close>

lemma sample_calls:
  "dynamicDelayMs (afterResponses (AdaptiveRateLimiter_constructor api_limiter_options)
     (take 2 [(1000, rate_limited), (70000, slow_hit), (71000, fast_empty)])) = 2600"
  by (simp add: afterResponse_def Let_def AdaptiveRateLimiter_constructor_def
      api_limiter_options_def or_default_def rate_limited_def slow_hit_def)

theorem dynamicDelay_stays_in_bounds_witness:
  "delay_in_bounds (afterResponses (AdaptiveRateLimiter_constructor api_limiter_options)
     (take 2 [(1000, rate_limited), (70000, slow_hit), (71000, fast_empty)]))
   \<and> dynamicDelayMs (afterResponses (AdaptiveRateLimiter_constructor api_limiter_options)
     (take 2 [(1000, rate_limited), (70000, slow_hit), (71000, fast_empty)])) = 2600"
proof -
  have h0: "- 400 \<le> minDelayMs (AdaptiveRateLimiter_constructor api_limiter_options)"
    by (simp add: api_limiter_fields)
  have h1: "minDelayMs (AdaptiveRateLimiter_constructor api_limiter_options)
              \<le> baseDelayMs (AdaptiveRateLimiter_constructor api_limiter_options)"
    by (simp add: api_limiter_fields)
  have h2: "baseDelayMs (AdaptiveRateLimiter_constructor api_limiter_options)
              \<le> maxDelayMs (AdaptiveRateLimiter_constructor api_limiter_options)"
    by (simp add: api_limiter_fields)
  show ?thesis
    using dynamicDelay_stays_in_bounds [OF h1 h2 h0] sample_calls by blast
qed

lemma beforeRequest_total_sleep:
  "sum_list (fst (beforeRequest s now priority wake)) =
     (if cooldownUntil s \<noteq> 0 \<and> of_nat now < cooldownUntil s
      then cooldownUntil s - of_nat now else 0)
     + max (max (dynamicDelayMs s) (baseForPriority s priority)
             - (of_nat now - of_nat (lastRequestTime s))) 0"
proof -
  define w where "w = max (max (dynamicDelayMs s) (baseForPriority s priority)
             - (of_nat now - of_nat (lastRequestTime s))) 0"
  have "0 \<le> w"
    by (simp add: w_def)
  then have "sum_list (if w > 0 then [w] else []) = w"
    by auto
  then show ?thesis
    unfolding beforeRequest_def Let_def w_def [symmetric] by simp
qed

lemma beforeRequest_sleeps_cooldown:
  "cooldownUntil s - of_nat now \<le> sum_list (fst (beforeRequest s now priority wake))"
proof -
  define w where "w = max (max (dynamicDelayMs s) (baseForPriority s priority)
             - (of_nat now - of_nat (lastRequestTime s))) 0"
  have w: "0 \<le> w" by (simp add: w_def)
  have n: "(0::rat) \<le> of_nat now" by simp
  show ?thesis
    unfolding beforeRequest_total_sleep w_def [symmetric]
    using w n by (cases "cooldownUntil s = 0") auto
qed

lemma beforeRequest_keeps_cooldown:
  "cooldownUntil (snd (beforeRequest s now priority wake)) = cooldownUntil s"
  by (simp add: beforeRequest_def Let_def)

text \<open>
  Claim C2.  After an \<open>afterResponse\<close> call with status 429, \<open>cooldownUntil\<close> is the clock
  reading of that call plus the backoff, and the next \<open>beforeRequest\<close>, entered at any
  clock reading \<open>now'\<close> and with any priority label, asks \<open>sleep\<close> for durations that add up
  to at least \<open>cooldownUntil - now'\<close>.  The same holds for the \<open>beforeRequest\<close> after that
  one, so no later request is let through before the cooldown has elapsed.
\<close>

theorem cooldown_dominance:
  "cooldownUntil (afterResponse s now (r\<lparr>status := 429\<rparr>)) = of_nat now + backoffMs s
   \<and> cooldownUntil (afterResponse s now (r\<lparr>status := 429\<rparr>)) - of_nat now'
       \<le> sum_list (fst (beforeRequest (afterResponse s now (r\<lparr>status := 429\<rparr>))
                           now' priority wake))
   \<and> cooldownUntil (afterResponse s now (r\<lparr>status := 429\<rparr>)) - of_nat now''
       \<le> sum_list (fst (beforeRequest
                           (snd (beforeRequest (afterResponse s now (r\<lparr>status := 429\<rparr>))
                                   now' priority wake))
                           now'' priority' wake'))"
proof (intro conjI)
  show "cooldownUntil (afterResponse s now (r\<lparr>status := 429\<rparr>)) = of_nat now + backoffMs s"
    by (simp add: afterResponse_429)
  show "cooldownUntil (afterResponse s now (r\<lparr>status := 429\<rparr>)) - of_nat now'
       \<le> sum_list (fst (beforeRequest (afterResponse s now (r\<lparr>status := 429\<rparr>))
                           now' priority wake))"
    by (rule beforeRequest_sleeps_cooldown)
  show "cooldownUntil (afterResponse s now (r\<lparr>status := 429\<rparr>)) - of_nat now''
       \<le> sum_list (fst (beforeRequest
                           (snd (beforeRequest (afterResponse s now (r\<lparr>status := 429\<rparr>))
                                   now' priority wake))
                           now'' priority' wake'))"
    using beforeRequest_sleeps_cooldown
      [of "snd (beforeRequest (afterResponse s now (r\<lparr>status := 429\<rparr>)) now' priority wake)"
        now'' priority' wake']
    by (simp only: beforeRequest_keeps_cooldown)
qed

text \<open>
  At the limiter of the API object: a 429 at clock 1000 sets the cooldown to 61000, and a
  low-priority \<open>beforeRequest\<close> at clock 2000 sleeps 59000 for the cooldown and 450 more
  for the spacing.
\<close>

lemma sample_beforeRequest:
  "fst (beforeRequest (afterResponse (AdaptiveRateLimiter_constructor api_limiter_options) 1000
          rate_limited) 2000 ''low'' 61450) = [59000, 450]"
  by (simp add: beforeRequest_def baseForPriority_def afterResponse_def Let_def
      AdaptiveRateLimiter_constructor_def api_limiter_options_def or_default_def rate_limited_def)

theorem cooldown_dominance_witness:
  "cooldownUntil (afterResponse (AdaptiveRateLimiter_constructor api_limiter_options) 1000
      rate_limited) = 61000
   \<and> (61000 :: rat) - 2000
       \<le> sum_list (fst (beforeRequest
             (afterResponse (AdaptiveRateLimiter_constructor api_limiter_options) 1000
                rate_limited) 2000 ''low'' 61450))
   \<and> fst (beforeRequest
             (afterResponse (AdaptiveRateLimiter_constructor api_limiter_options) 1000
                rate_limited) 2000 ''low'' 61450) = [59000, 450]"
  using cooldown_dominance [of "AdaptiveRateLimiter_constructor api_limiter_options" 1000
      rate_limited 2000 "''low''" 61450] sample_beforeRequest
  by (simp add: rate_limited_def api_limiter_fields)

text \<open>
  The parts of claim C3 that hold on every state: what a 429 assigns, the cap on the
  backoff, and that no other status touches \<open>cooldownUntil\<close>.  The backoff does not shrink
  when it is non-negative and within the cap.
\<close>

lemma afterResponse_429_backoff_capped:
  assumes "status r = 429"
  shows "backoffMs (afterResponse s now r) \<le> 4 * maxDelayMs s"
  using assms by (simp add: afterResponse_429)

lemma afterResponse_429_backoff_grows_within_cap:
  assumes "status r = 429" "0 \<le> backoffMs s" "backoffMs s \<le> 4 * maxDelayMs s"
  shows "backoffMs s \<le> backoffMs (afterResponse s now r)"
  using assms by (simp add: afterResponse_429)

text \<open>
  Claim C3, at the limiter the API object builds.  The backoff starts at 60000 and the
  cap \<open>4 * maxDelayMs\<close> is 32000, so the first 429 lowers the backoff from 60000 to
  32000 instead of growing it.
\<close>

theorem backoff_shrinks_on_first_429:
  "backoffMs (AdaptiveRateLimiter_constructor api_limiter_options) = 60000
   \<and> backoffMs (afterResponse (AdaptiveRateLimiter_constructor api_limiter_options) 1000
        rate_limited) = 32000
   \<and> backoffMs (afterResponse (AdaptiveRateLimiter_constructor api_limiter_options) 1000
        rate_limited)
       < backoffMs (AdaptiveRateLimiter_constructor api_limiter_options)"
  by (simp add: afterResponse_def AdaptiveRateLimiter_constructor_def api_limiter_options_def
      or_default_def rate_limited_def)

text \<open>
  Claim C7, as amended.  When the floor does not exceed the base, the base delays are
  ordered \<open>high \<le> medium \<le> low\<close>; \<open>high\<close> is the base less 300, floored at \<open>minDelayMs\<close>,
  \<open>medium\<close> is the base, and \<open>low\<close> is the base plus 300, with no cap.
\<close>

theorem baseForPriority_ordering:
  assumes "minDelayMs s \<le> baseDelayMs s"
  shows "baseForPriority s ''high'' \<le> baseForPriority s ''medium''
       \<and> baseForPriority s ''medium'' \<le> baseForPriority s ''low''
       \<and> baseForPriority s ''high'' = max (baseDelayMs s - 300) (minDelayMs s)
       \<and> baseForPriority s ''medium'' = baseDelayMs s
       \<and> baseForPriority s ''low'' = baseDelayMs s + 300"
  using assms by (simp add: baseForPriority_def)

theorem baseForPriority_ordering_witness:
  "baseForPriority (AdaptiveRateLimiter_constructor api_limiter_options) ''high'' = 1200
   \<and> baseForPriority (AdaptiveRateLimiter_constructor api_limiter_options) ''medium'' = 1500
   \<and> baseForPriority (AdaptiveRateLimiter_constructor api_limiter_options) ''low'' = 1800
   \<and> baseForPriority (AdaptiveRateLimiter_constructor api_limiter_options) ''high''
       \<le> baseForPriority (AdaptiveRateLimiter_constructor api_limiter_options) ''medium''
   \<and> baseForPriority (AdaptiveRateLimiter_constructor api_limiter_options) ''medium''
       \<le> baseForPriority (AdaptiveRateLimiter_constructor api_limiter_options) ''low''"
proof -
  have h: "minDelayMs (AdaptiveRateLimiter_constructor api_limiter_options)
             \<le> baseDelayMs (AdaptiveRateLimiter_constructor api_limiter_options)"
    by (simp add: api_limiter_fields)
  show ?thesis
    using baseForPriority_ordering [OF h] by (simp add: api_limiter_fields)
qed

text \<open>
  Claim C7 as stated fails twice.  With floor 2000 above base 1500, \<open>high\<close> is 2000 and
  exceeds \<open>medium\<close>, 1500.  With base 7900 and ceiling 8000, \<open>low\<close> is 8200: it is not
  capped at \<open>maxDelayMs\<close>.
\<close>

theorem baseForPriority_ordering_counterexample:
  "baseForPriority (AdaptiveRateLimiter_constructor floor_above_base_options) ''high'' = 2000
   \<and> baseForPriority (AdaptiveRateLimiter_constructor floor_above_base_options) ''medium'' = 1500
   \<and> \<not> baseForPriority (AdaptiveRateLimiter_constructor floor_above_base_options) ''high''
         \<le> baseForPriority (AdaptiveRateLimiter_constructor floor_above_base_options) ''medium''
   \<and> baseForPriority (AdaptiveRateLimiter_constructor base_near_max_options) ''low'' = 8200
   \<and> maxDelayMs (AdaptiveRateLimiter_constructor base_near_max_options)
        < baseForPriority (AdaptiveRateLimiter_constructor base_near_max_options) ''low''"
  by (simp add: baseForPriority_def AdaptiveRateLimiter_constructor_def
      floor_above_base_options_def base_near_max_options_def or_default_def)

section \<open>Properties of the profile filter\<close>

lemma str_includes_sublist: "str_includes s k \<longleftrightarrow> sublist k s"
  by (induction s) (auto simp: sublist_Cons_right)

lemma some_includes_all_strings:
  "some_includes b (map Some ks) = Inr (\<exists>k \<in> set ks. str_includes b (toLowerCase k))"
  by (induction ks) auto

lemma some_includes_then_undefined:
  "some_includes b (map Some ks @ [None]) =
     (if \<exists>k \<in> set ks. str_includes b (toLowerCase k) then Inr True else Inl TypeError)"
  by (induction ks) auto

lemma has_keyword_cases:
  "has_keyword b ks =
     (case english ks of
        None \<Rightarrow> Inl TypeError
      | Some e \<Rightarrow>
          (case arabic ks of
             None \<Rightarrow> if \<exists>k \<in> set e. str_includes b (toLowerCase k) then Inr True
                     else Inl TypeError
           | Some a \<Rightarrow> Inr (\<exists>k \<in> set (e @ a). str_includes b (toLowerCase k))))"
proof (cases "english ks")
  case None
  then show ?thesis
    by (simp add: has_keyword_def concat_languages_def)
next
  case (Some e)
  show ?thesis
  proof (cases "arabic ks")
    case None
    with Some show ?thesis
      by (simp add: has_keyword_def concat_languages_def some_includes_then_undefined)
  next
    case (Some a)
    have "some_includes b (map Some e @ map Some a) =
        Inr (\<exists>k \<in> set (e @ a). str_includes b (toLowerCase k))"
      using some_includes_all_strings [of b "e @ a"] by simp
    with \<open>english ks = Some e\<close> Some show ?thesis
      by (simp add: has_keyword_def concat_languages_def)
  qed
qed

lemma has_keyword_True_iff:
  "has_keyword b ks = Inr True \<longleftrightarrow>
     english ks \<noteq> None \<and> (\<exists>k \<in> set (language_union ks). str_includes b (toLowerCase k))"
  by (auto simp add: has_keyword_cases language_union_def split: option.splits)

lemma has_keyword_False_iff:
  "has_keyword b ks = Inr False \<longleftrightarrow>
     english ks \<noteq> None \<and> arabic ks \<noteq> None
     \<and> \<not> (\<exists>k \<in> set (language_union ks). str_includes b (toLowerCase k))"
  by (auto simp add: has_keyword_cases language_union_def split: option.splits)

lemma filterProfile_pass_has_keyword:
  "pass (filterProfile p inc exc) \<longleftrightarrow>
     \<not> is_private p
     \<and> has_keyword (toLowerCase (or_empty (biography p))) inc = Inr True
     \<and> has_keyword (toLowerCase (or_empty (biography p))) exc = Inr False"
  by (auto simp add: filterProfile_def Let_def split: sum.splits)

text \<open>The follower count is read and then used by no check.\<close>

lemma filterProfile_ignores_followers:
  "filterProfile (p\<lparr>edge_followed_by_count := c\<rparr>) inc exc = filterProfile p inc exc"
  by (simp add: filterProfile_def Let_def)

text \<open>
  Claim C4, as amended.  \<open>filterProfile\<close> passes exactly when the include configuration
  has an \<open>english\<close> list, the exclude configuration has both an \<open>english\<close> and an \<open>arabic\<close>
  list, the profile is not private, its biography contains (case-insensitively, as a
  substring) at least one keyword of the include lists, and it contains no keyword of the
  exclude lists.  A configuration that lacks one of those lists makes the verdict fail.
\<close>

theorem filterProfile_pass_iff:
  "pass (filterProfile p includeKw excludeKw) \<longleftrightarrow>
     spec_filter_pass p includeKw excludeKw
     \<and> english includeKw \<noteq> None
     \<and> english excludeKw \<noteq> None
     \<and> arabic excludeKw \<noteq> None"
  unfolding filterProfile_pass_has_keyword has_keyword_True_iff has_keyword_False_iff
    spec_filter_pass_def bio_contains_def str_includes_sublist
  by blast

lemma bio_contains_examples:
  "bio_contains dm_for_coaching ''coach''"
  "bio_contains musician_and_coach ''coach''"
  "bio_contains musician_and_coach ''musician''"
  unfolding bio_contains_def str_includes_sublist [symmetric]
  by (simp_all add: dm_for_coaching_def musician_and_coach_def or_empty_def toLowerCase_def
      toLowerCase_char_def)

text \<open>
  The two examples of the claim, through the theorem: the first passes when the exclude
  configuration carries its two (empty) lists, the second fails although \<open>coach\<close> matches.
\<close>

theorem filterProfile_pass_iff_witness:
  "pass (filterProfile dm_for_coaching coach_english_only empty_lists)
   \<and> \<not> pass (filterProfile musician_and_coach coach_english_only exclude_musician)"
  using filterProfile_pass_iff [of dm_for_coaching coach_english_only empty_lists]
    filterProfile_pass_iff [of musician_and_coach coach_english_only exclude_musician]
    bio_contains_examples
  by (simp add: spec_filter_pass_def language_union_def coach_english_only_def empty_lists_def
      exclude_musician_def dm_for_coaching_def musician_and_coach_def)

text \<open>
  Claim C4 as stated fails at its own first example with the exclude set written \<^verbatim>\<open>{}\<close>:
  the profile is public, \<open>coach\<close> occurs in the biography and there is no exclude keyword,
  yet reading \<^verbatim>\<open>excludeKeywords.english\<close> throws and the verdict is a failing one.
\<close>

theorem filterProfile_empty_exclude_counterexample:
  "\<not> (pass (filterProfile dm_for_coaching coach_english_only empty_object)
        \<longleftrightarrow> spec_filter_pass dm_for_coaching coach_english_only empty_object)"
proof -
  have "spec_filter_pass dm_for_coaching coach_english_only empty_object"
    using bio_contains_examples(1)
    by (simp add: spec_filter_pass_def language_union_def coach_english_only_def empty_object_def
        dm_for_coaching_def)
  moreover have "\<not> pass (filterProfile dm_for_coaching coach_english_only empty_object)"
    by (simp add: filterProfile_def has_keyword_def concat_languages_def coach_english_only_def
        empty_object_def dm_for_coaching_def or_empty_def toLowerCase_def toLowerCase_char_def)
  ultimately show ?thesis by simp
qed

text \<open>
  Claim C6, at a public profile with five followers and a trainer keyword in its
  biography: the count is below the configured floor of 100 and the verdict passes.
\<close>

theorem filterProfile_passes_below_follower_floor:
  "or_default (edge_followed_by_count dm_for_coaching) 0 < FILTER_minFollowers
   \<and> pass (filterProfile dm_for_coaching coach_english_only empty_lists)
   \<and> reason (filterProfile dm_for_coaching coach_english_only empty_lists) = All_checks_passed"
  by (simp add: filterProfile_def has_keyword_def concat_languages_def coach_english_only_def
      empty_lists_def dm_for_coaching_def or_empty_def or_default_def toLowerCase_def
      toLowerCase_char_def FILTER_minFollowers_def)

section \<open>Properties of the orchestrator\<close>

lemma configureKeywordSets_names:
  "names (configureKeywordSets s) = names s"
  "priorityNames (configureKeywordSets s) = filter (\<lambda>n. n \<in> set (names s)) prioritySeed"
  "remainingNames (configureKeywordSets s) =
     filter (\<lambda>n. n \<notin> set (priorityNames (configureKeywordSets s))) (names s)"
  by (simp_all add: configureKeywordSets_def Let_def)

text \<open>
  Claim C8.  The priority names are exactly the seed names present in the corpus, the
  remaining names are the corpus without the priority names, the two sets are disjoint
  and their union is the corpus.  A seed name absent from the corpus is dropped.
\<close>

theorem configureKeywordSets_partition:
  "set (priorityNames (configureKeywordSets s)) = set prioritySeed \<inter> set (names s)
   \<and> set (remainingNames (configureKeywordSets s))
       = set (names s) - set (priorityNames (configureKeywordSets s))
   \<and> set (priorityNames (configureKeywordSets s)) \<inter> set (remainingNames (configureKeywordSets s))
       = {}
   \<and> set (priorityNames (configureKeywordSets s)) \<union> set (remainingNames (configureKeywordSets s))
       = set (names s)"
  unfolding configureKeywordSets_names by auto

theorem configureKeywordSets_partition_witness:
  "priorityNames (configureKeywordSets sample_corpus) = [''ahmed'', ''sara'']
   \<and> remainingNames (configureKeywordSets sample_corpus) = [''khaled'', ''khaled'']
   \<and> set (priorityNames (configureKeywordSets sample_corpus))
       \<union> set (remainingNames (configureKeywordSets sample_corpus))
       = set (names sample_corpus)"
  using configureKeywordSets_partition [of sample_corpus]
  by (simp add: configureKeywordSets_names prioritySeed_def sample_corpus_def)

subsection \<open>Fetch failures\<close>

lemma process_users_append:
  "process_users gp ctx s (xs @ ys) =
     (case process_users gp ctx s xs of Inl e \<Rightarrow> Inl e | Inr s' \<Rightarrow> process_users gp ctx s' ys)"
  by (induction xs arbitrary: s) (simp_all split: sum.splits)

lemma phase_users_append:
  "phase_users gp bk ek label ts (xs @ ys) =
     phase_users gp bk ek label (phase_users gp bk ek label ts xs) ys"
  by (induction xs arbitrary: ts) simp_all

lemma process_user_fetch_failed:
  assumes "hit_username user = Some u" "gp u = None"
  shows "process_user gp ctx s user = Inr s"
  using assms by (simp add: process_user_def)

lemma phase_user_fetch_failed:
  assumes "hit_username user = Some u" "gp u = None"
  shows "phase_user gp bk ek label ts user = ts"
  using assms by (simp add: phase_user_def)

text \<open>In the three-phase sweep a hit without a username is skipped in the same way.\<close>

lemma phase_user_fetch_failed_no_username:
  assumes "hit_username user = None" "gp ''undefined'' = None"
  shows "phase_user gp bk ek label ts user = ts"
  using assms by (simp add: phase_user_def)

text \<open>
  Claim C9.  A hit whose profile fetch returns no data is skipped: processing it alone
  returns the unchanged state and no error, and anywhere in a list of hits the loop gives
  what it gives on the list without that hit.  Both orchestrators behave so.
\<close>

theorem fetch_failure_skips_hit:
  assumes "hit_username user = Some u" and "getProfile u = None"
  shows "process_users getProfile contextLabel s [user] = Inr s
       \<and> process_users getProfile contextLabel s (earlier @ user # later)
           = process_users getProfile contextLabel s (earlier @ later)
       \<and> phase_users getProfile bioKw exclKw label trainers [user] = trainers
       \<and> phase_users getProfile bioKw exclKw label trainers (earlier @ user # later)
           = phase_users getProfile bioKw exclKw label trainers (earlier @ later)"
proof (intro conjI)
  show "process_users getProfile contextLabel s [user] = Inr s"
    using assms by (simp add: process_user_fetch_failed)
  show "process_users getProfile contextLabel s (earlier @ user # later)
      = process_users getProfile contextLabel s (earlier @ later)"
    using assms by (simp add: process_users_append process_user_fetch_failed split: sum.splits)
  show "phase_users getProfile bioKw exclKw label trainers [user] = trainers"
    using assms by (simp add: phase_user_fetch_failed)
  show "phase_users getProfile bioKw exclKw label trainers (earlier @ user # later)
      = phase_users getProfile bioKw exclKw label trainers (earlier @ later)"
    using assms by (simp add: phase_users_append phase_user_fetch_failed)
qed

lemma sample_lower:
  "toLowerCase ''Fit.Sam'' = ''fit.sam''"
  "toLowerCase ''fit.sam'' = ''fit.sam''"
  "toLowerCase ''ghost'' = ''ghost''"
  "toLowerCase ''omar.music'' = ''omar.music''"
  "toLowerCase ''coach'' = ''coach''"
  "toLowerCase ''musician'' = ''musician''"
  "toLowerCase ''DM for coaching'' = ''dm for coaching''"
  "toLowerCase ''musician and coach'' = ''musician and coach''"
  by code_simp+

lemma sample_verdicts:
  "pass (filterProfile dm_for_coaching coach_english_only exclude_musician)"
  "\<not> pass (filterProfile musician_and_coach coach_english_only exclude_musician)"
  by (simp_all add: filterProfile_def has_keyword_def concat_languages_def
      coach_english_only_def exclude_musician_def dm_for_coaching_def musician_and_coach_def
      or_empty_def sample_lower)

lemma sample_run:
  "process_users sample_getProfile ''sam + coach'' sample_finder sample_hits = Inr sample_accepted"
  by (simp add: sample_hits_def process_user_def sample_getProfile_def sample_lower
      sample_finder_def PTFinder_constructor_def sample_verdicts extractTrainerInfo_def
      sample_accepted_def sample_trainer_def)
    (simp add: dm_for_coaching_def or_empty_def or_default_def sample_lower)

theorem fetch_failure_skips_hit_witness:
  "process_users sample_getProfile ''sam + coach'' sample_finder [\<lparr>hit_username = Some ''ghost''\<rparr>]
     = Inr sample_finder
   \<and> process_users sample_getProfile ''sam + coach'' sample_finder
       ([\<lparr>hit_username = Some ''Fit.Sam''\<rparr>] @ \<lparr>hit_username = Some ''ghost''\<rparr>
          # [\<lparr>hit_username = Some ''fit.sam''\<rparr>, \<lparr>hit_username = Some ''omar.music''\<rparr>])
     = Inr sample_accepted"
proof -
  have h1: "hit_username \<lparr>hit_username = Some ''ghost''\<rparr> = Some ''ghost''"
    by simp
  have h2: "sample_getProfile ''ghost'' = None"
    by (simp add: sample_getProfile_def)
  show ?thesis
    using fetch_failure_skips_hit [where getProfile = sample_getProfile and u = "''ghost''"
          and contextLabel = "''sam + coach''" and s = sample_finder
          and earlier = "[\<lparr>hit_username = Some ''Fit.Sam''\<rparr>]"
          and later = "[\<lparr>hit_username = Some ''fit.sam''\<rparr>,
                        \<lparr>hit_username = Some ''omar.music''\<rparr>]", OF h1 h2]
      sample_run
    by (simp add: sample_hits_def)
qed

subsection \<open>Deduplication\<close>

lemma deduplicate_loop_distinct:
  assumes "seen = set (map dedupKey unique)" "distinct (map dedupKey unique)"
  shows "distinct (map dedupKey (deduplicate_loop seen unique ts))"
  using assms
proof (induction ts arbitrary: seen unique)
  case Nil
  then show ?case by simp
next
  case (Cons t ts)
  show ?case
  proof (cases "dedupKey t \<in> seen")
    case True
    then have "deduplicate_loop seen unique (t # ts) = deduplicate_loop seen unique ts"
      by (simp add: dedupKey_def)
    then show ?thesis
      using Cons by simp
  next
    case False
    have "distinct (map dedupKey (deduplicate_loop (insert (dedupKey t) seen) (unique @ [t]) ts))"
      using Cons.prems False by (intro Cons.IH) auto
    moreover have "deduplicate_loop seen unique (t # ts)
        = deduplicate_loop (insert (dedupKey t) seen) (unique @ [t]) ts"
      using False by (simp add: dedupKey_def)
    ultimately show ?thesis
      by simp
  qed
qed

lemma deduplicateTrainers_distinct: "distinct (map dedupKey (deduplicateTrainers ts))"
  unfolding deduplicateTrainers_def by (rule deduplicate_loop_distinct) simp_all

lemma deduplicate_loop_keeps_distinct:
  assumes "distinct (map dedupKey ts)" "set (map dedupKey ts) \<inter> seen = {}"
  shows "deduplicate_loop seen unique ts = unique @ ts"
  using assms
proof (induction ts arbitrary: seen unique)
  case Nil
  then show ?case by simp
next
  case (Cons t ts)
  have fresh: "dedupKey t \<notin> seen"
    using Cons.prems by auto
  then have "deduplicate_loop seen unique (t # ts)
      = deduplicate_loop (insert (dedupKey t) seen) (unique @ [t]) ts"
    by (simp add: dedupKey_def)
  moreover have "deduplicate_loop (insert (dedupKey t) seen) (unique @ [t]) ts
      = (unique @ [t]) @ ts"
    using Cons.prems by (intro Cons.IH) auto
  ultimately show ?case
    by simp
qed

lemma deduplicateTrainers_distinct_id:
  "distinct (map dedupKey ts) \<Longrightarrow> deduplicateTrainers ts = ts"
  unfolding deduplicateTrainers_def using deduplicate_loop_keeps_distinct [of ts "{}" "[]"] by simp

text \<open>Whatever was collected, the list \<open>getResults\<close> returns has no key twice.\<close>

lemma getResults_distinct: "distinct (map dedupKey (getResults s))"
  by (simp add: getResults_def deduplicateTrainers_distinct)

lemma constructor_dedup_inv: "dedup_inv (PTFinder_constructor bioKw exclKw)"
  by (simp add: dedup_inv_def PTFinder_constructor_def)

lemma skips_no_op:
  assumes "skips gp s user"
  shows "process_user gp ctx s user = Inr s"
  using assms by (auto simp add: skips_def process_user_def split: option.splits)

lemma skips_mono:
  assumes "skips gp s user" "seenUsernames s \<subseteq> seenUsernames s'"
    "bioFilterKeywords s' = bioFilterKeywords s" "excludeKeywords s' = excludeKeywords s"
  shows "skips gp s' user"
  using assms by (auto simp add: skips_def split: option.splits)

lemma process_user_grows:
  assumes "process_user gp ctx s user = Inr s'"
  shows "seenUsernames s \<subseteq> seenUsernames s' \<and> bioFilterKeywords s' = bioFilterKeywords s
       \<and> excludeKeywords s' = excludeKeywords s"
  using assms
  by (auto simp add: process_user_def extractTrainerInfo_def split: option.splits if_splits)

lemma process_user_settles:
  assumes "returns_requested_profile gp" "process_user gp ctx s user = Inr s'"
  shows "skips gp s' user"
proof (cases "hit_username user")
  case None
  with assms(2) show ?thesis
    by (simp add: process_user_def)
next
  case (Some u)
  show ?thesis
  proof (cases "skips gp s user")
    case True
    with assms(2) skips_no_op [OF True, of ctx] show ?thesis
      by simp
  next
    case False
    then obtain p where p: "gp u = Some p" "toLowerCase u \<notin> seenUsernames s"
        "pass (filterProfile p (bioFilterKeywords s) (excludeKeywords s))"
      using Some by (auto simp add: skips_def split: option.splits)
    have "toLowerCase (or_empty (username p)) = toLowerCase u"
      using assms(1) p(1) by (simp add: returns_requested_profile_def)
    then have "toLowerCase u \<in> seenUsernames s'"
      using assms(2) Some p by (auto simp add: process_user_def extractTrainerInfo_def)
    then show ?thesis
      using Some by (simp add: skips_def)
  qed
qed

lemma process_user_inv:
  assumes "returns_requested_profile gp" "dedup_inv s" "process_user gp ctx s user = Inr s'"
  shows "dedup_inv s'"
proof (cases "skips gp s user")
  case True
  with assms(2,3) skips_no_op [OF True, of ctx] show ?thesis
    by simp
next
  case False
  then obtain u p where p: "hit_username user = Some u" "gp u = Some p"
      "toLowerCase u \<notin> seenUsernames s"
      "pass (filterProfile p (bioFilterKeywords s) (excludeKeywords s))"
    using assms(3) by (auto simp add: skips_def process_user_def split: option.splits)
  have key: "toLowerCase (or_empty (username p)) = toLowerCase u"
    using assms(1) p(2) by (simp add: returns_requested_profile_def)
  have s': "s' = s\<lparr> seenUsernames := insert (toLowerCase u) (seenUsernames s),
                   allTrainers := allTrainers s @ [the (extractTrainerInfo p ctx)] \<rparr>"
    using assms(3) p key by (simp add: process_user_def extractTrainerInfo_def)
  have "dedupKey (the (extractTrainerInfo p ctx)) = toLowerCase u"
    using key by (simp add: dedupKey_def extractTrainerInfo_def)
  then show ?thesis
    using assms(2) p(3) by (auto simp add: s' dedup_inv_def)
qed

lemma process_users_grows:
  assumes "process_users gp ctx s hits = Inr s1"
  shows "seenUsernames s \<subseteq> seenUsernames s1 \<and> bioFilterKeywords s1 = bioFilterKeywords s
       \<and> excludeKeywords s1 = excludeKeywords s"
  using assms
proof (induction hits arbitrary: s)
  case Nil
  then show ?case by simp
next
  case (Cons user hits)
  then obtain s' where step: "process_user gp ctx s user = Inr s'"
      and rest: "process_users gp ctx s' hits = Inr s1"
    by (auto split: sum.splits)
  show ?case
    using process_user_grows [OF step] Cons.IH [OF rest] by auto
qed

lemma process_users_inv:
  assumes "returns_requested_profile gp" "dedup_inv s" "process_users gp ctx s hits = Inr s1"
  shows "dedup_inv s1"
  using assms(2,3)
proof (induction hits arbitrary: s)
  case Nil
  then show ?case by simp
next
  case (Cons user hits)
  then obtain s' where step: "process_user gp ctx s user = Inr s'"
      and rest: "process_users gp ctx s' hits = Inr s1"
    by (auto split: sum.splits)
  show ?case
    using Cons.IH [OF process_user_inv [OF assms(1) Cons.prems(1) step] rest] .
qed

lemma process_users_settles:
  assumes "returns_requested_profile gp" "process_users gp ctx s hits = Inr s1"
  shows "list_all (skips gp s1) hits"
  using assms(2)
proof (induction hits arbitrary: s)
  case Nil
  then show ?case by simp
next
  case (Cons user hits)
  then obtain s' where step: "process_user gp ctx s user = Inr s'"
      and rest: "process_users gp ctx s' hits = Inr s1"
    by (auto split: sum.splits)
  have "skips gp s1 user"
    using skips_mono [OF process_user_settles [OF assms(1) step]] process_users_grows [OF rest]
    by blast
  with Cons.IH [OF rest] show ?case
    by simp
qed

lemma all_skipped_no_op:
  assumes "list_all (skips gp s) hits"
  shows "process_users gp ctx s hits = Inr s"
  using assms by (induction hits) (simp_all add: skips_no_op)

subsection \<open>A second pass, whatever the collaborator returns\<close>

lemma deduplicate_loop_all_seen:
  assumes "set (map dedupKey ts) \<subseteq> seen"
  shows "deduplicate_loop seen unique ts = unique"
  using assms by (induction ts) (simp_all add: dedupKey_def)

lemma deduplicate_loop_append_known:
  assumes "set (map dedupKey extra) \<subseteq> seen \<union> set (map dedupKey ts)"
  shows "deduplicate_loop seen unique (ts @ extra) = deduplicate_loop seen unique ts"
  using assms
proof (induction ts arbitrary: seen unique)
  case Nil
  then show ?case
    by (simp add: deduplicate_loop_all_seen)
next
  case (Cons t ts)
  show ?case
  proof (cases "dedupKey t \<in> seen")
    case True
    then have "set (map dedupKey extra) \<subseteq> seen \<union> set (map dedupKey ts)"
      using Cons.prems by auto
    then have "deduplicate_loop seen unique (ts @ extra) = deduplicate_loop seen unique ts"
      by (rule Cons.IH)
    with True show ?thesis
      by (simp add: dedupKey_def [symmetric])
  next
    case False
    have "set (map dedupKey extra) \<subseteq> insert (dedupKey t) seen \<union> set (map dedupKey ts)"
      using Cons.prems by auto
    then have "deduplicate_loop (insert (dedupKey t) seen) (unique @ [t]) (ts @ extra)
        = deduplicate_loop (insert (dedupKey t) seen) (unique @ [t]) ts"
      by (rule Cons.IH)
    with False show ?thesis
      by (simp add: dedupKey_def [symmetric])
  qed
qed

lemma deduplicateTrainers_append_known:
  assumes "set (map dedupKey extra) \<subseteq> set (map dedupKey ts)"
  shows "deduplicateTrainers (ts @ extra) = deduplicateTrainers ts"
  unfolding deduplicateTrainers_def using assms by (intro deduplicate_loop_append_known) simp

lemma recorded_mono:
  assumes "recorded gp s user" "seenUsernames s \<subseteq> seenUsernames s'"
    "set (map dedupKey (allTrainers s)) \<subseteq> set (map dedupKey (allTrainers s'))"
    "bioFilterKeywords s' = bioFilterKeywords s" "excludeKeywords s' = excludeKeywords s"
  shows "recorded gp s' user"
proof (cases "hit_username user")
  case None
  with assms(1) show ?thesis
    by (simp add: recorded_def)
next
  case (Some u)
  show ?thesis
  proof (cases "gp u")
    case None
    with Some show ?thesis
      by (simp add: recorded_def)
  next
    case (Some p)
    with \<open>hit_username user = Some u\<close> assms show ?thesis
      unfolding recorded_def by (simp del: set_map) blast
  qed
qed

text \<open>One iteration either leaves the state or appends one record, and grows the seen set.\<close>

lemma process_user_step:
  assumes "process_user gp ctx s user = Inr s'"
  shows "(allTrainers s' = allTrainers s \<or> (\<exists>t. allTrainers s' = allTrainers s @ [t]))
       \<and> seenUsernames s \<subseteq> seenUsernames s'
       \<and> bioFilterKeywords s' = bioFilterKeywords s \<and> excludeKeywords s' = excludeKeywords s"
  using assms
  by (auto simp add: process_user_def extractTrainerInfo_def split: option.splits if_splits)

lemma process_user_keys_grow:
  assumes "process_user gp ctx s user = Inr s'"
  shows "set (map dedupKey (allTrainers s)) \<subseteq> set (map dedupKey (allTrainers s'))"
  using process_user_step [OF assms] by auto

lemma process_user_records:
  assumes "process_user gp ctx s user = Inr s'"
  shows "recorded gp s' user"
proof (cases "skips gp s user")
  case True
  then have "s' = s"
    using assms skips_no_op [OF True, of ctx] by simp
  with True show ?thesis
    by (auto simp add: skips_def recorded_def split: option.splits)
next
  case False
  then obtain u p where p: "hit_username user = Some u" "gp u = Some p"
      "toLowerCase u \<notin> seenUsernames s"
      "pass (filterProfile p (bioFilterKeywords s) (excludeKeywords s))"
    using assms by (auto simp add: skips_def process_user_def split: option.splits)
  have "allTrainers s' = allTrainers s @ [the (extractTrainerInfo p ctx)]"
    using assms p by (auto simp add: process_user_def extractTrainerInfo_def)
  moreover have "dedupKey (the (extractTrainerInfo p ctx)) = toLowerCase (or_empty (username p))"
    by (simp add: dedupKey_def extractTrainerInfo_def)
  ultimately have "toLowerCase (or_empty (username p)) \<in> set (map dedupKey (allTrainers s'))"
    by simp
  then show ?thesis
    using p(1,2) unfolding recorded_def by (simp del: set_map)
qed

lemma process_users_keys_grow:
  assumes "process_users gp ctx s hits = Inr s1"
  shows "set (map dedupKey (allTrainers s)) \<subseteq> set (map dedupKey (allTrainers s1))"
  using assms
proof (induction hits arbitrary: s)
  case Nil
  then show ?case by simp
next
  case (Cons user hits)
  then obtain s' where step: "process_user gp ctx s user = Inr s'"
      and rest: "process_users gp ctx s' hits = Inr s1"
    by (auto split: sum.splits)
  show ?case
    using process_user_keys_grow [OF step] Cons.IH [OF rest] by blast
qed

lemma process_users_records:
  assumes "process_users gp ctx s hits = Inr s1"
  shows "list_all (recorded gp s1) hits"
  using assms
proof (induction hits arbitrary: s)
  case Nil
  then show ?case by simp
next
  case (Cons user hits)
  then obtain s' where step: "process_user gp ctx s user = Inr s'"
      and rest: "process_users gp ctx s' hits = Inr s1"
    by (auto split: sum.splits)
  have "recorded gp s1 user"
    using recorded_mono [OF process_user_records [OF step]] process_users_grows [OF rest]
      process_users_keys_grow [OF rest]
    by blast
  with Cons.IH [OF rest] show ?case
    by simp
qed

text \<open>On a recorded hit, an iteration adds at most a record whose key is already there.\<close>

lemma recorded_step:
  assumes "recorded gp s user"
  shows "\<exists>s'. process_user gp ctx s user = Inr s'
             \<and> set (map dedupKey (allTrainers s')) = set (map dedupKey (allTrainers s))
             \<and> (\<exists>extra. allTrainers s' = allTrainers s @ extra)"
proof (cases "skips gp s user")
  case True
  then show ?thesis
    by (simp add: skips_no_op)
next
  case False
  then obtain u p where p: "hit_username user = Some u" "gp u = Some p"
      "toLowerCase u \<notin> seenUsernames s"
      "pass (filterProfile p (bioFilterKeywords s) (excludeKeywords s))"
    using assms by (auto simp add: skips_def recorded_def split: option.splits)
  then have known: "toLowerCase (or_empty (username p)) \<in> set (map dedupKey (allTrainers s))"
    using assms unfolding recorded_def by (simp del: set_map)
  define s' where "s' = s\<lparr> seenUsernames :=
        insert (toLowerCase (or_empty (username p))) (seenUsernames s),
      allTrainers := allTrainers s @ [the (extractTrainerInfo p ctx)] \<rparr>"
  have run: "process_user gp ctx s user = Inr s'"
    using p by (simp add: process_user_def extractTrainerInfo_def s'_def)
  have "dedupKey (the (extractTrainerInfo p ctx)) = toLowerCase (or_empty (username p))"
    by (simp add: dedupKey_def extractTrainerInfo_def)
  then have "set (map dedupKey (allTrainers s')) = set (map dedupKey (allTrainers s))"
    using known by (auto simp add: s'_def)
  moreover have "\<exists>extra. allTrainers s' = allTrainers s @ extra"
    by (simp add: s'_def)
  ultimately show ?thesis
    using run by blast
qed

lemma recorded_pass:
  assumes "list_all (recorded gp s) hits"
  shows "\<exists>s'. process_users gp ctx s hits = Inr s'
             \<and> set (map dedupKey (allTrainers s')) = set (map dedupKey (allTrainers s))
             \<and> (\<exists>extra. allTrainers s' = allTrainers s @ extra)"
  using assms
proof (induction hits arbitrary: s)
  case Nil
  then show ?case by simp
next
  case (Cons user hits)
  have first: "recorded gp s user"
    using Cons.prems by simp
  obtain s1 extra1 where s1: "process_user gp ctx s user = Inr s1"
      "set (map dedupKey (allTrainers s1)) = set (map dedupKey (allTrainers s))"
      "allTrainers s1 = allTrainers s @ extra1"
    using recorded_step [OF first, of ctx] by blast
  have grow: "seenUsernames s \<subseteq> seenUsernames s1 \<and> bioFilterKeywords s1 = bioFilterKeywords s
      \<and> excludeKeywords s1 = excludeKeywords s"
    using process_user_grows [OF s1(1)] .
  have "list_all (recorded gp s1) hits"
    unfolding list_all_iff
  proof
    fix h
    assume "h \<in> set hits"
    then have "recorded gp s h"
      using Cons.prems by (simp add: list_all_iff)
    then show "recorded gp s1 h"
      using grow s1(2) by (intro recorded_mono [of gp s h s1]) simp_all
  qed
  then obtain s' extra where s': "process_users gp ctx s1 hits = Inr s'"
      "set (map dedupKey (allTrainers s')) = set (map dedupKey (allTrainers s1))"
      "allTrainers s' = allTrainers s1 @ extra"
    using Cons.IH [of s1] by blast
  have "process_users gp ctx s (user # hits) = Inr s'"
    using s1(1) s'(1) by simp
  moreover have "set (map dedupKey (allTrainers s')) = set (map dedupKey (allTrainers s))"
    using s'(2) s1(2) by simp
  moreover have "\<exists>e. allTrainers s' = allTrainers s @ e"
    using s'(3) s1(3) by simp
  ultimately show ?case
    by blast
qed

lemma second_pass_same_results:
  assumes "process_users gp ctx s hits = Inr s1"
  shows "\<exists>s2. process_users gp ctx' s1 hits = Inr s2 \<and> getResults s2 = getResults s1"
proof -
  obtain s2 extra where s2: "process_users gp ctx' s1 hits = Inr s2"
      "set (map dedupKey (allTrainers s2)) = set (map dedupKey (allTrainers s1))"
      "allTrainers s2 = allTrainers s1 @ extra"
    using recorded_pass [OF process_users_records [OF assms], of ctx'] by blast
  have "set (map dedupKey extra) \<subseteq> set (map dedupKey (allTrainers s1))"
    using s2(2,3) by auto
  then have "getResults s2 = getResults s1"
    by (simp add: getResults_def s2(3) deduplicateTrainers_append_known)
  with s2(1) show ?thesis
    by blast
qed

text \<open>
  Claim C5, as amended.  If a pass over the hits ends in state \<open>s1\<close>, then a second pass
  over the same hits, under any label, ends without error in a state with the same final
  result list (\<open>getResults\<close>); the final result list never has two records with the same
  case-folded username; and a hit whose case-folded username is in the seen set changes
  nothing.  When the profile collaborator returns, for a username, a profile carrying that
  username up to letter case, and the finder starts with its seen set matching its accepted
  records (as the constructor leaves it), the deduplication at insertion time is complete:
  the second pass returns \<open>s1\<close> itself, so does one pass over the hits listed twice, no two
  accepted records share a case-folded username, and the final pass removes nothing.
\<close>

theorem dedup_idempotent:
  assumes "process_users getProfile contextLabel s hits = Inr s1"
  shows "(\<exists>s2. process_users getProfile laterLabel s1 hits = Inr s2
              \<and> getResults s2 = getResults s1)
       \<and> distinct (map dedupKey (getResults s1))
       \<and> (toLowerCase u \<in> seenUsernames s1 \<longrightarrow>
            process_user getProfile laterLabel s1 \<lparr>hit_username = Some u\<rparr> = Inr s1)
       \<and> (returns_requested_profile getProfile \<and> dedup_inv s \<longrightarrow>
            process_users getProfile laterLabel s1 hits = Inr s1
            \<and> process_users getProfile contextLabel s (hits @ hits) = Inr s1
            \<and> seenUsernames s1 = set (map dedupKey (allTrainers s1))
            \<and> distinct (map dedupKey (allTrainers s1))
            \<and> getResults s1 = allTrainers s1)"
proof (intro conjI impI)
  show "\<exists>s2. process_users getProfile laterLabel s1 hits = Inr s2
      \<and> getResults s2 = getResults s1"
    using assms by (rule second_pass_same_results)
  show "distinct (map dedupKey (getResults s1))"
    by (rule getResults_distinct)
  show "process_user getProfile laterLabel s1 \<lparr>hit_username = Some u\<rparr> = Inr s1"
    if "toLowerCase u \<in> seenUsernames s1"
    using that by (simp add: process_user_def)
next
  assume contract: "returns_requested_profile getProfile \<and> dedup_inv s"
  have again: "process_users getProfile l s1 hits = Inr s1" for l
    using process_users_settles [of getProfile contextLabel s hits s1] contract assms
    by (intro all_skipped_no_op) simp
  have inv: "dedup_inv s1"
    using contract assms process_users_inv [of getProfile s contextLabel hits s1] by simp
  show "process_users getProfile laterLabel s1 hits = Inr s1"
    by (rule again)
  show "process_users getProfile contextLabel s (hits @ hits) = Inr s1"
    using assms again by (simp add: process_users_append)
  show "seenUsernames s1 = set (map dedupKey (allTrainers s1))"
    using inv by (simp add: dedup_inv_def)
  show "distinct (map dedupKey (allTrainers s1))"
    using inv by (simp add: dedup_inv_def)
  show "getResults s1 = allTrainers s1"
    using inv by (simp add: getResults_def dedup_inv_def deduplicateTrainers_distinct_id)
qed

lemma sample_getProfile_contract: "returns_requested_profile sample_getProfile"
  by (auto simp add: returns_requested_profile_def sample_getProfile_def dm_for_coaching_def
      musician_and_coach_def or_empty_def sample_lower split: if_splits)

theorem dedup_idempotent_witness:
  "process_users sample_getProfile ''sam + coach'' sample_finder sample_hits = Inr sample_accepted
   \<and> process_users sample_getProfile ''personal trainer'' sample_accepted sample_hits
       = Inr sample_accepted
   \<and> process_users sample_getProfile ''sam + coach'' sample_finder (sample_hits @ sample_hits)
       = Inr sample_accepted
   \<and> distinct (map dedupKey (allTrainers sample_accepted))
   \<and> distinct (map dedupKey (getResults sample_accepted))
   \<and> getResults sample_accepted = allTrainers sample_accepted"
proof -
  have inv: "dedup_inv sample_finder"
    by (simp add: sample_finder_def constructor_dedup_inv)
  show ?thesis
    using dedup_idempotent [OF sample_run, of "''personal trainer''"]
      sample_getProfile_contract inv sample_run
    by blast
qed

text \<open>
  Claim C5 as stated fails when the collaborator answers the hit \<open>sam.coach\<close> with the profile
  of \<open>fit.sam\<close>: the loop tests the hit's username and records the profile's, so the second
  pass fetches and accepts the profile again, and the accepted list holds two records with
  the key \<open>fit.sam\<close>.
\<close>

lemma alias_lower: "toLowerCase ''sam.coach'' = ''sam.coach''"
  by code_simp

theorem dedup_alias_counterexample:
  "process_users alias_getProfile ''sam + coach'' sample_finder alias_hits = Inr alias_once
   \<and> process_users alias_getProfile ''personal trainer'' alias_once alias_hits = Inr alias_twice
   \<and> alias_twice \<noteq> alias_once
   \<and> \<not> distinct (map dedupKey (allTrainers alias_twice))"
proof (intro conjI)
  show "process_users alias_getProfile ''sam + coach'' sample_finder alias_hits = Inr alias_once"
    by (simp add: alias_hits_def process_user_def alias_getProfile_def alias_lower
        sample_finder_def PTFinder_constructor_def sample_verdicts extractTrainerInfo_def
        alias_once_def sample_trainer_def)
      (simp add: dm_for_coaching_def or_empty_def or_default_def sample_lower)
  show "process_users alias_getProfile ''personal trainer'' alias_once alias_hits
      = Inr alias_twice"
    by (simp add: alias_hits_def process_user_def alias_getProfile_def alias_lower
        alias_once_def sample_finder_def PTFinder_constructor_def sample_verdicts
        extractTrainerInfo_def alias_twice_def sample_trainer_def)
      (simp add: dm_for_coaching_def or_empty_def or_default_def sample_lower)
  show "alias_twice \<noteq> alias_once"
  proof
    assume "alias_twice = alias_once"
    then have "length (allTrainers alias_twice) = length (allTrainers alias_once)"
      by simp
    then show False
      by (simp add: alias_twice_def alias_once_def)
  qed
  show "\<not> distinct (map dedupKey (allTrainers alias_twice))"
    by (simp add: alias_twice_def dedupKey_def sample_trainer_def)
qed

subsection \<open>Search requests\<close>






















end
